theory Spec2Isabelle
  imports Main "HOL-Library.Multiset"
begin

section \<open>Python values and exceptions\<close>

text \<open>
  The exceptions the modelled functions can raise: \<open>TypeError\<close> is raised explicitly by
  \<open>find_generic_triples\<close>; \<open>KeyError\<close> by a dictionary lookup in \<open>get_string_repr\<close>;
  \<open>IndexError\<close> by \<open>all_tokens[token_index]\<close>; \<open>RecursionError\<close> by the interpreter when
  the recursion of \<open>_create_tree\<close> exceeds the stack limit.
\<close>

datatype error = TypeError | KeyError | IndexError | RecursionError

text \<open>Decimal rendering of an integer, as \<open>str(n)\<close> and \<open>'{}'.format(n)\<close> produce it.\<close>

fun digits :: "nat \<Rightarrow> string" where
  "digits n = (if n < 10 then [char_of (48 + n)]
               else digits (n div 10) @ [char_of (48 + n mod 10)])"

declare digits.simps [simp del]

definition str_int :: "int \<Rightarrow> string" where
  "str_int i = (if i < 0 then CHR ''-'' # digits (nat (- i)) else digits (nat i))"

text \<open>\<open>sep.join(xs)\<close>.\<close>

fun join :: "string \<Rightarrow> string list \<Rightarrow> string" where
  "join sep [] = []"
| "join sep [x] = x"
| "join sep (x # y # ys) = x @ sep @ join sep (y # ys)"

text \<open>\<open>s * n\<close> for a string \<open>s\<close> and an integer \<open>n\<close>: empty when \<open>n \<le> 0\<close>.\<close>

definition str_times :: "string \<Rightarrow> int \<Rightarrow> string" where
  "str_times s n = concat (replicate (nat n) s)"

text \<open>
  Subscription \<open>all_tokens[token_index]\<close> of a sequence by an integer: a position from
  the front when the integer is not negative, from the back when it is, and
  \<open>IndexError\<close> outside both ranges.
\<close>

definition py_getitem :: "'a list \<Rightarrow> int \<Rightarrow> error + 'a" where
  "py_getitem xs i =
     (if 0 \<le> i \<and> i < int (length xs) then Inr (xs ! nat i)
      else if i < 0 \<and> - int (length xs) \<le> i then Inr (xs ! nat (int (length xs) + i))
      else Inl IndexError)"

text \<open>
  A list comprehension \<open>[f(x) for x in xs]\<close> whose body may raise: the elements are
  computed in order and the first exception ends the comprehension.
\<close>

fun comprehend :: "('a \<Rightarrow> error + 'b) \<Rightarrow> 'a list \<Rightarrow> error + 'b list" where
  "comprehend f [] = Inr []"
| "comprehend f (x # xs) =
     (case f x of
        Inl e \<Rightarrow> Inl e
      | Inr y \<Rightarrow> (case comprehend f xs of Inl e \<Rightarrow> Inl e | Inr ys \<Rightarrow> Inr (y # ys)))"

text \<open>
  A generator, run to its end: the items it yields, and the exception that ended it,
  if one did.
\<close>

type_synonym 'a generator = "'a list \<times> error option"

section \<open>library/document.py\<close>

text \<open>
  An optional dictionary from codes to display names (\<open>pos_tag_mapping\<close>,
  \<open>label_mapping\<close>): \<open>None\<close> when unset.
\<close>

type_synonym name_mapping = "(int \<times> string) list option"

text \<open>
  class \<open>Tree\<close>, with its attributes populated: \<open>label\<close> and \<open>pos_tag\<close> are the integer
  codes of the analyser's enumerations. The attribute \<open>lemma\<close> is named \<open>lemma_attr\<close>
  here.
\<close>

datatype tree =
  Tree (index: int) (label: int) (content: string) (lemma_attr: string) (pos_tag: int)
       (children: "tree list") (pos_tag_mapping: name_mapping) (label_mapping: name_mapping)

text \<open>
  \<open>Tree.walk\<close>: \<open>yield self\<close>, then for each child, in order, every node of its walk.
\<close>

fun walk :: "tree \<Rightarrow> tree list"
  and walk_children :: "tree list \<Rightarrow> tree list" where
  "walk (Tree i l c lm p cs pm lbm) = Tree i l c lm p cs pm lbm # walk_children cs"
| "walk_children [] = []"
| "walk_children (child # cs) = walk child @ walk_children cs"

text \<open>
  \<open>mapping[code] if mapping else code\<close>: an unset or empty mapping is falsy, and the raw
  code is used; otherwise a missing key raises \<open>KeyError\<close>.
\<close>

definition display_name :: "name_mapping \<Rightarrow> int \<Rightarrow> error + string" where
  "display_name mapping code =
     (case mapping of
        None \<Rightarrow> Inr (str_int code)
      | Some [] \<Rightarrow> Inr (str_int code)
      | Some (kv # kvs) \<Rightarrow>
          (case map_of (kv # kvs) code of None \<Rightarrow> Inl KeyError | Some name \<Rightarrow> Inr name))"

definition get_string_repr :: "tree \<Rightarrow> bool \<Rightarrow> error + string" where
  "get_string_repr t verbose =
     (case display_name (pos_tag_mapping t) (pos_tag t) of
        Inl e \<Rightarrow> Inl e
      | Inr pos_tag_s \<Rightarrow>
          (case display_name (label_mapping t) (label t) of
             Inl e \<Rightarrow> Inl e
           | Inr label_s \<Rightarrow>
               Inr (if verbose then
                      ''Tree(index='' @ str_int (index t) @ '',label='' @ [CHR 0x27] @ label_s
                      @ [CHR 0x27] @ '', content='' @ [CHR 0x27] @ content t
                      @ [CHR 0x27] @ '', lemma='' @ [CHR 0x27] @ lemma_attr t
                      @ [CHR 0x27] @ '', pos_tag='' @ [CHR 0x27] @ pos_tag_s
                      @ [CHR 0x27] @ '', children=[''
                      @ join '','' (map (\<lambda>t. str_int (index t)) (children t)) @ ''])''
                    else content t @ '' (pos_tag='' @ pos_tag_s @ '', label='' @ label_s
                      @ '')'')))"

text \<open>
  The prefix that \<open>Tree._get_tree_statements\<close> computes for its own line, in two steps.
\<close>

definition statement_prefix :: "int \<Rightarrow> string" where
  "statement_prefix depth =
     (let prefix = (if depth \<le> 2 then [] else str_times ''   '' (depth - 2));
          prefix = prefix @ (if depth = 1 then [] else ''|- '')
      in prefix)"

text \<open>
  \<open>Tree._get_tree_statements\<close>. \<open>max_depth\<close> is \<open>None\<close> or an integer; the loop over the
  children appends to \<open>statements\<close>.
\<close>

fun get_tree_statements :: "tree \<Rightarrow> int option \<Rightarrow> int \<Rightarrow> bool \<Rightarrow> error + string list"
  and extend_statements ::
    "tree list \<Rightarrow> int option \<Rightarrow> int \<Rightarrow> bool \<Rightarrow> string list \<Rightarrow> error + string list" where
  "get_tree_statements (Tree i l c lm p cs pm lbm) max_depth depth verbose =
     (if max_depth \<noteq> None \<and> max_depth = Some 0 then Inr []
      else
        let next_depth = depth + 1;
            next_max_depth = (case max_depth of None \<Rightarrow> None | Some m \<Rightarrow> Some (m - 1));
            prefix = statement_prefix depth
        in case get_string_repr (Tree i l c lm p cs pm lbm) verbose of
             Inl e \<Rightarrow> Inl e
           | Inr s \<Rightarrow> extend_statements cs next_max_depth next_depth verbose [prefix @ s])"
| "extend_statements [] max_depth depth verbose statements = Inr statements"
| "extend_statements (n # ns) max_depth depth verbose statements =
     (case get_tree_statements n max_depth depth verbose of
        Inl e \<Rightarrow> Inl e
      | Inr sts \<Rightarrow> extend_statements ns max_depth depth verbose (statements @ sts))"

definition get_printable_tree :: "tree \<Rightarrow> int option \<Rightarrow> bool \<Rightarrow> error + string" where
  "get_printable_tree t max_depth verbose =
     (case get_tree_statements t max_depth 1 verbose of
        Inl e \<Rightarrow> Inl e
      | Inr statements \<Rightarrow> Inr (join [CHR 0x0A] statements))"

text \<open>Classes \<open>Sentence\<close> and \<open>Document\<close>.\<close>

datatype sentence = Sentence (sentence_content: string) (root: tree)

record document =
  language :: string
  sentences :: "sentence list"

section \<open>library/operations.py\<close>

text \<open>
  The argument \<open>doc_or_sentence\<close>: a \<open>Document\<close>, a \<open>Sentence\<close>, or any other object.
\<close>

datatype source = A_Document document | A_Sentence sentence | Other_Object

type_synonym triple = "tree \<times> tree \<times> tree"

text \<open>The loop \<open>for child in node.children\<close> that fills \<open>left_deps\<close> and \<open>right_deps\<close>.\<close>

fun collect_deps ::
  "tree list \<Rightarrow> int \<Rightarrow> int \<Rightarrow> tree list \<Rightarrow> tree list \<Rightarrow> tree list \<times> tree list" where
  "collect_deps [] left_label right_label left_deps right_deps = (left_deps, right_deps)"
| "collect_deps (child # cs) left_label right_label left_deps right_deps =
     (if label child = left_label
        then collect_deps cs left_label right_label (left_deps @ [child]) right_deps
      else if label child = right_label
        then collect_deps cs left_label right_label left_deps (right_deps @ [child])
      else collect_deps cs left_label right_label left_deps right_deps)"

text \<open>The loops \<open>for left_dep in left_deps: for right_dep in right_deps: yield ...\<close>.\<close>

fun yield_right_deps :: "tree \<Rightarrow> tree \<Rightarrow> tree list \<Rightarrow> triple list" where
  "yield_right_deps left_dep node [] = []"
| "yield_right_deps left_dep node (right_dep # rs) =
     (left_dep, node, right_dep) # yield_right_deps left_dep node rs"

fun yield_left_deps :: "tree list \<Rightarrow> tree \<Rightarrow> tree list \<Rightarrow> triple list" where
  "yield_left_deps [] node right_deps = []"
| "yield_left_deps (left_dep # ls) node right_deps =
     yield_right_deps left_dep node right_deps @ yield_left_deps ls node right_deps"

text \<open>The loop \<open>for node in sentence.root.walk()\<close>.\<close>

fun match_nodes :: "tree list \<Rightarrow> int \<Rightarrow> int \<Rightarrow> int \<Rightarrow> triple list" where
  "match_nodes [] left_label head_pos_tag right_label = []"
| "match_nodes (node # ns) left_label head_pos_tag right_label =
     (if pos_tag node \<noteq> head_pos_tag
        then match_nodes ns left_label head_pos_tag right_label
      else
        (case collect_deps (children node) left_label right_label [] [] of
           (left_deps, right_deps) \<Rightarrow>
             yield_left_deps left_deps node right_deps
             @ match_nodes ns left_label head_pos_tag right_label))"

text \<open>The loop \<open>for sentence in sentences\<close>.\<close>

fun match_sentences :: "sentence list \<Rightarrow> int \<Rightarrow> int \<Rightarrow> int \<Rightarrow> triple list" where
  "match_sentences [] left_label head_pos_tag right_label = []"
| "match_sentences (s # ss) left_label head_pos_tag right_label =
     match_nodes (walk (root s)) left_label head_pos_tag right_label
     @ match_sentences ss left_label head_pos_tag right_label"

text \<open>
  The dispatch on the argument at the head of \<open>find_generic_triples\<close>: the sentences to
  search, or \<open>TypeError\<close>.
\<close>

definition source_sentences :: "source \<Rightarrow> error + sentence list" where
  "source_sentences doc_or_sentence =
     (case doc_or_sentence of
        A_Document d \<Rightarrow> Inr (sentences d)
      | A_Sentence s \<Rightarrow> Inr [s]
      | Other_Object \<Rightarrow> Inl TypeError)"

definition find_generic_triples :: "source \<Rightarrow> int \<Rightarrow> int \<Rightarrow> int \<Rightarrow> triple generator" where
  "find_generic_triples doc_or_sentence left_label head_pos_tag right_label =
     (case source_sentences doc_or_sentence of
        Inl e \<Rightarrow> ([], Some e)
      | Inr sents \<Rightarrow> (match_sentences sents left_label head_pos_tag right_label, None))"

text \<open>
  \<open>itertools.product(xs, ys, zs)\<close> of the standard library: the triples in
  lexicographic order of positions, the rightmost position advancing fastest.
\<close>

definition itertools_product :: "'a list \<Rightarrow> 'b list \<Rightarrow> 'c list \<Rightarrow> ('a \<times> 'b \<times> 'c) list" where
  "itertools_product xs ys zs =
     concat (map (\<lambda>x. concat (map (\<lambda>y. map (\<lambda>z. (x, y, z)) zs) ys)) xs)"

text \<open>
  \<open>for x in xs: for val in g(x): yield val\<close>: an exception raised inside \<open>g(x)\<close> ends
  the whole generator after the items yielded so far.
\<close>

fun yield_from_each :: "('a \<Rightarrow> 'b generator) \<Rightarrow> 'a list \<Rightarrow> 'b generator" where
  "yield_from_each g [] = ([], None)"
| "yield_from_each g (x # xs) =
     (case g x of
        (vals, Some e) \<Rightarrow> (vals, Some e)
      | (vals, None) \<Rightarrow> (case yield_from_each g xs of (rest, r) \<Rightarrow> (vals @ rest, r)))"

definition find_generic_triples_multi_criteria ::
  "source \<Rightarrow> int list \<Rightarrow> int list \<Rightarrow> int list \<Rightarrow> triple generator" where
  "find_generic_triples_multi_criteria doc_or_sentence left_labels head_pos_tags right_labels =
     yield_from_each (\<lambda>(left, head, right). find_generic_triples doc_or_sentence left head right)
       (itertools_product left_labels head_pos_tags right_labels)"

section \<open>providers/google_cloud.py\<close>

text \<open>
  The codes of \<open>enums.DependencyEdge.Label\<close> and \<open>enums.PartOfSpeech.Tag\<close> that the
  module uses. The enumerations belong to the analyser's client library; the functions
  below take them as a parameter.
\<close>

record enums =
  Label_ROOT :: int
  Label_NSUBJ :: int
  Label_NSUBJPASS :: int
  Label_DOBJ :: int
  Label_POBJ :: int
  Label_PREP :: int
  Tag_VERB :: int

text \<open>
  A token of the response: \<open>text.content\<close>, \<open>lemma\<close>, \<open>part_of_speech.tag\<close>,
  \<open>dependency_edge.label\<close> and \<open>dependency_edge.head_token_index\<close>.
\<close>

record token =
  text_content :: string
  token_lemma :: string
  part_of_speech_tag :: int
  dependency_edge_label :: int
  head_token_index :: int

text \<open>A sentence of the response (\<open>text.content\<close>), and the response.\<close>

record response_sentence =
  sentence_text_content :: string

record response =
  response_language :: string
  response_sentences :: "response_sentence list"
  tokens :: "token list"

text \<open>
  The indices that the list comprehension of \<open>_create_tree\<close> selects from
  \<open>enumerate(all_tokens)\<close>: the tokens not labelled \<open>ROOT\<close> whose head is \<open>token_index\<close>.
\<close>

definition child_indices :: "enums \<Rightarrow> int \<Rightarrow> token list \<Rightarrow> int list" where
  "child_indices E token_index all_tokens =
     [int i. (i, t) \<leftarrow> enumerate 0 all_tokens,
        dependency_edge_label t \<noteq> Label_ROOT E \<and> head_token_index t = token_index]"

text \<open>
  \<open>_create_tree\<close>, with \<open>DEBUG = False\<close> as the module sets it. The first argument is the
  number of stack frames left: Python raises \<open>RecursionError\<close> when the recursion goes
  deeper.
\<close>

fun create_tree :: "nat \<Rightarrow> enums \<Rightarrow> int \<Rightarrow> token list \<Rightarrow> error + tree" where
  "create_tree 0 E token_index all_tokens = Inl RecursionError"
| "create_tree (Suc frames) E token_index all_tokens =
     (case py_getitem all_tokens token_index of
        Inl e \<Rightarrow> Inl e
      | Inr token \<Rightarrow>
          (case comprehend (\<lambda>i. create_tree frames E i all_tokens)
                  (child_indices E token_index all_tokens) of
             Inl e \<Rightarrow> Inl e
           | Inr cs \<Rightarrow>
               Inr (Tree token_index (dependency_edge_label token) (text_content token)
                      (token_lemma token) (part_of_speech_tag token) cs None None)))"

text \<open>The loop of \<open>create_nlst_document_from_response\<close> over the zipped pairs.\<close>

fun append_sentences ::
  "nat \<Rightarrow> enums \<Rightarrow> token list \<Rightarrow> (response_sentence \<times> nat) list \<Rightarrow> document
     \<Rightarrow> error + document" where
  "append_sentences frames E all_tokens [] doc = Inr doc"
| "append_sentences frames E all_tokens ((sentence, root_index) # ps) doc =
     (case create_tree frames E (int root_index) all_tokens of
        Inl e \<Rightarrow> Inl e
      | Inr t \<Rightarrow>
          append_sentences frames E all_tokens ps
            (doc\<lparr>sentences := sentences doc @ [Sentence (sentence_text_content sentence) t]\<rparr>))"

text \<open>The indices of the tokens labelled \<open>ROOT\<close>, in the order of the array.\<close>

definition sentence_root_indices :: "enums \<Rightarrow> token list \<Rightarrow> nat list" where
  "sentence_root_indices E all_tokens =
     [idx. (idx, t) \<leftarrow> enumerate 0 all_tokens, dependency_edge_label t = Label_ROOT E]"

definition create_nlst_document_from_response ::
  "nat \<Rightarrow> enums \<Rightarrow> response \<Rightarrow> error + document" where
  "create_nlst_document_from_response frames E resp =
     (let doc = \<lparr>language = response_language resp, sentences = []\<rparr>
      in append_sentences frames E (tokens resp)
           (zip (response_sentences resp) (sentence_root_indices E (tokens resp))) doc)"

text \<open>\<open>find_verb_triples\<close>: the active-voice generator, then the passive-voice one.\<close>

definition find_verb_triples :: "enums \<Rightarrow> source \<Rightarrow> bool \<Rightarrow> bool \<Rightarrow> triple generator" where
  "find_verb_triples E doc_or_sentence active_voice passive_voice =
     (case (if active_voice
            then find_generic_triples_multi_criteria doc_or_sentence
                   [Label_NSUBJ E] [Tag_VERB E] [Label_DOBJ E, Label_PREP E]
            else ([], None)) of
        (vals, Some e) \<Rightarrow> (vals, Some e)
      | (vals, None) \<Rightarrow>
          (case (if passive_voice
                 then find_generic_triples_multi_criteria doc_or_sentence
                        [Label_NSUBJPASS E] [Tag_VERB E] [Label_POBJ E, Label_PREP E]
                 else ([], None)) of
             (rest, r) \<Rightarrow> (vals @ rest, r)))"

section \<open>Vocabulary of the specification\<close>

text \<open>
  The pre-order sequence of the nodes of a tree, each with its depth; the root has the
  depth given.
\<close>

fun walk_depth :: "tree \<Rightarrow> int \<Rightarrow> (int \<times> tree) list"
  and walk_depth_children :: "tree list \<Rightarrow> int \<Rightarrow> (int \<times> tree) list" where
  "walk_depth (Tree i l c lm p cs pm lbm) depth =
     (depth, Tree i l c lm p cs pm lbm) # walk_depth_children cs (depth + 1)"
| "walk_depth_children [] depth = []"
| "walk_depth_children (child # cs) depth = walk_depth child depth @ walk_depth_children cs depth"

text \<open>
  The prefix of a line of the printable tree: none at depth 1, \<open>'|- '\<close> at depth 2,
  and at a greater depth the indentation \<open>'   '\<close> repeated \<open>depth - 2\<close> times and then
  \<open>'|- '\<close>.
\<close>

definition line_prefix :: "int \<Rightarrow> string" where
  "line_prefix depth =
     (if depth = 1 then []
      else if depth = 2 then ''|- ''
      else str_times ''   '' (depth - 2) @ ''|- '')"

text \<open>
  The prefix in the order the specification's sentence gives its parts: \<open>'|- '\<close> first,
  the repeated indentation after it.
\<close>

definition stated_line_prefix :: "int \<Rightarrow> string" where
  "stated_line_prefix depth =
     (if depth = 1 then []
      else if depth = 2 then ''|- ''
      else ''|- '' @ str_times ''   '' (depth - 2))"

text \<open>A line of the printable tree: the prefix, then the node's string representation.\<close>

definition tree_line :: "(int \<Rightarrow> string) \<Rightarrow> bool \<Rightarrow> int \<times> tree \<Rightarrow> error + string" where
  "tree_line pre verbose dn =
     (case get_string_repr (snd dn) verbose of
        Inl e \<Rightarrow> Inl e
      | Inr s \<Rightarrow> Inr (pre (fst dn) @ s))"

text \<open>
  The convention of the token array: a token carries the label \<open>ROOT\<close> exactly when its
  head index is its own index.
\<close>

definition root_convention :: "enums \<Rightarrow> token list \<Rightarrow> bool" where
  "root_convention E all_tokens =
     list_all (\<lambda>(i, t). (dependency_edge_label t = Label_ROOT E) = (head_token_index t = int i))
       (enumerate 0 all_tokens)"

text \<open>The head of token \<open>j\<close>, as a position of the array.\<close>

definition head_of :: "token list \<Rightarrow> nat \<Rightarrow> nat" where
  "head_of all_tokens j = nat (head_token_index (all_tokens ! j))"

text \<open>
  A well-formed single-sentence token array with root \<open>r\<close>: token \<open>r\<close> is the only one
  labelled \<open>ROOT\<close>, every other token's head index is a position of the array, and
  following the head references from any token reaches \<open>r\<close>.
\<close>

definition well_formed_sentence :: "enums \<Rightarrow> token list \<Rightarrow> nat \<Rightarrow> bool" where
  "well_formed_sentence E all_tokens r =
     (r < length all_tokens
      \<and> dependency_edge_label (all_tokens ! r) = Label_ROOT E
      \<and> list_all (\<lambda>j. j = r \<or>
             (dependency_edge_label (all_tokens ! j) \<noteq> Label_ROOT E
              \<and> 0 \<le> head_token_index (all_tokens ! j)
              \<and> head_token_index (all_tokens ! j) < int (length all_tokens)))
           [0..<length all_tokens]
      \<and> list_all (\<lambda>j. list_ex (\<lambda>d. (head_of all_tokens ^^ d) j = r) [0..<Suc (length all_tokens)])
           [0..<length all_tokens])"

text \<open>
  The number of head references from token \<open>j\<close> to the root \<open>r\<close>: the depth of the
  token. It serves the proofs only.
\<close>

definition root_distance :: "token list \<Rightarrow> nat \<Rightarrow> nat \<Rightarrow> nat" where
  "root_distance all_tokens r j = (LEAST d. (head_of all_tokens ^^ d) j = r)"

text \<open>The tokens below token \<open>i\<close>, itself included: those whose chain of heads passes \<open>i\<close>.\<close>

definition descendants :: "token list \<Rightarrow> nat \<Rightarrow> nat \<Rightarrow> nat set" where
  "descendants all_tokens r i =
     {j. j < length all_tokens
         \<and> root_distance all_tokens r i \<le> root_distance all_tokens r j
         \<and> (head_of all_tokens ^^ (root_distance all_tokens r j - root_distance all_tokens r i)) j
             = i}"

section \<open>Example inputs\<close>

text \<open>Codes for the labels and the tag the module names.\<close>

definition example_enums :: enums where
  "example_enums =
     \<lparr>Label_ROOT = 54, Label_NSUBJ = 28, Label_NSUBJPASS = 29, Label_DOBJ = 18,
      Label_POBJ = 36, Label_PREP = 43, Tag_VERB = 11\<rparr>"

text \<open>The tokens of "The cat chased the mouse".\<close>

definition example_tokens :: "token list" where
  "example_tokens =
     [\<lparr>text_content = ''The'', token_lemma = ''the'', part_of_speech_tag = 5,
        dependency_edge_label = 16, head_token_index = 1\<rparr>,
      \<lparr>text_content = ''cat'', token_lemma = ''cat'', part_of_speech_tag = 6,
        dependency_edge_label = 28, head_token_index = 2\<rparr>,
      \<lparr>text_content = ''chased'', token_lemma = ''chase'', part_of_speech_tag = 11,
        dependency_edge_label = 54, head_token_index = 2\<rparr>,
      \<lparr>text_content = ''the'', token_lemma = ''the'', part_of_speech_tag = 5,
        dependency_edge_label = 16, head_token_index = 4\<rparr>,
      \<lparr>text_content = ''mouse'', token_lemma = ''mouse'', part_of_speech_tag = 6,
        dependency_edge_label = 18, head_token_index = 2\<rparr>]"

text \<open>The tree of that sentence, and its nodes.\<close>

definition node_The :: tree where
  "node_The = Tree 0 16 ''The'' ''the'' 5 [] None None"

definition node_cat :: tree where
  "node_cat = Tree 1 28 ''cat'' ''cat'' 6 [node_The] None None"

definition node_the :: tree where
  "node_the = Tree 3 16 ''the'' ''the'' 5 [] None None"

definition node_mouse :: tree where
  "node_mouse = Tree 4 18 ''mouse'' ''mouse'' 6 [node_the] None None"

definition node_chased :: tree where
  "node_chased = Tree 2 54 ''chased'' ''chase'' 11 [node_cat, node_mouse] None None"

definition example_sentence :: sentence where
  "example_sentence = Sentence ''The cat chased the mouse'' node_chased"

text \<open>A response with two sentence texts and the tokens of one sentence only.\<close>

definition example_response :: response where
  "example_response =
     \<lparr>response_language = ''en'',
      response_sentences =
        [\<lparr>sentence_text_content = ''The cat chased the mouse''\<rparr>,
         \<lparr>sentence_text_content = ''It ran''\<rparr>],
      tokens = example_tokens\<rparr>"

section \<open>Sanity of the decimal rendering\<close>

lemma str_int_example: "str_int 42 = ''42'' \<and> str_int (- 7) = ''-7'' \<and> str_int 0 = ''0''"
  by code_simp


section \<open>Traversal\<close>

lemma walk_children_concat: "walk_children cs = concat (map walk cs)"
  by (induction cs) auto

lemma walk_unfold: "walk t = t # concat (map walk (children t))"
  by (cases t) (simp add: walk_children_concat)

section \<open>The generic matcher\<close>

lemma collect_deps_filter:
  "collect_deps cs ll rl ld rd =
     (ld @ filter (\<lambda>c. label c = ll) cs, rd @ filter (\<lambda>c. label c \<noteq> ll \<and> label c = rl) cs)"
  by (induction cs arbitrary: ld rd) auto

lemma yield_right_deps_map: "yield_right_deps l n rs = map (\<lambda>r. (l, n, r)) rs"
  by (induction rs) auto

lemma yield_left_deps_concat:
  "yield_left_deps ls n rs = concat (map (\<lambda>l. map (\<lambda>r. (l, n, r)) rs) ls)"
  by (induction ls) (auto simp: yield_right_deps_map)

lemma concat_map_filter_if:
  "concat (map (\<lambda>x. if P x then f x else []) xs) = concat (map f (filter P xs))"
  by (induction xs) auto

lemma map_filter_if:
  "concat (map (\<lambda>x. if P x then [f x] else []) xs) = map f (filter P xs)"
  by (induction xs) auto

lemma match_nodes_comprehension:
  "match_nodes ns ll hp rl =
     [(l, head, r). head \<leftarrow> ns, pos_tag head = hp,
        l \<leftarrow> children head, label l = ll,
        r \<leftarrow> children head, label r = rl \<and> label r \<noteq> ll]"
proof (induction ns)
  case Nil
  show ?case by simp
next
  case (Cons n ns)
  have "yield_left_deps (filter (\<lambda>c. label c = ll) (children n)) n
          (filter (\<lambda>c. label c \<noteq> ll \<and> label c = rl) (children n)) =
        [(l, n, r). l \<leftarrow> children n, label l = ll,
           r \<leftarrow> children n, label r = rl \<and> label r \<noteq> ll]"
    by (simp add: yield_left_deps_concat concat_map_filter_if map_filter_if conj_commute)
  with Cons show ?case
    by (simp add: collect_deps_filter)
qed

lemma match_sentences_comprehension:
  "match_sentences ss ll hp rl =
     [(l, head, r). s \<leftarrow> ss, head \<leftarrow> walk (root s), pos_tag head = hp,
        l \<leftarrow> children head, label l = ll,
        r \<leftarrow> children head, label r = rl \<and> label r \<noteq> ll]"
  by (induction ss) (simp_all add: match_nodes_comprehension)

lemma find_generic_triples_valid:
  "source_sentences src = Inr ss \<Longrightarrow>
   find_generic_triples src ll hp rl = (match_sentences ss ll hp rl, None)"
  by (simp add: find_generic_triples_def)

lemma find_generic_triples_invalid:
  "find_generic_triples Other_Object ll hp rl = ([], Some TypeError)"
  by (simp add: find_generic_triples_def source_sentences_def)

lemma example_sentence_is_source:
  "source_sentences (A_Sentence example_sentence) = Inr [example_sentence]"
  by (simp add: source_sentences_def)

text \<open>
  Claim C1, as amended. For a \<open>Sentence\<close> or \<open>Document\<close> source, \<open>find_generic_triples\<close>
  yields, for each sentence in order and each node \<open>head\<close> of the pre-order walk with
  \<open>pos_tag = head_pos_tag\<close>, the triples \<open>(l, head, r)\<close> with \<open>l\<close> over the direct children
  labelled \<open>left_label\<close> (outer loop) and \<open>r\<close> over the direct children labelled
  \<open>right_label\<close> and not \<open>left_label\<close> (inner loop), both in child order: a child that
  matches the left label is placed in the left partition only. When no node has the
  tag, nothing is yielded. A document's sentences are searched in document order, a
  single sentence alone.
\<close>

theorem find_generic_triples_cross_product:
  "source_sentences src = Inr ss \<Longrightarrow>
   find_generic_triples src left_label head_pos_tag right_label =
     ([(l, head, r). s \<leftarrow> ss, head \<leftarrow> walk (root s), pos_tag head = head_pos_tag,
         l \<leftarrow> children head, label l = left_label,
         r \<leftarrow> children head, label r = right_label \<and> label r \<noteq> left_label], None)
   \<and> ((\<forall>s \<in> set ss. \<forall>n \<in> set (walk (root s)). pos_tag n \<noteq> head_pos_tag) \<longrightarrow>
        find_generic_triples src left_label head_pos_tag right_label = ([], None))
   \<and> source_sentences (A_Document d) = Inr (sentences d)
   \<and> source_sentences (A_Sentence s1) = Inr [s1]"
proof -
  assume v: "source_sentences src = Inr ss"
  have a: "find_generic_triples src left_label head_pos_tag right_label =
     ([(l, head, r). s \<leftarrow> ss, head \<leftarrow> walk (root s), pos_tag head = head_pos_tag,
         l \<leftarrow> children head, label l = left_label,
         r \<leftarrow> children head, label r = right_label \<and> label r \<noteq> left_label], None)"
    using v by (simp only: find_generic_triples_valid match_sentences_comprehension)
  have b: "find_generic_triples src left_label head_pos_tag right_label = ([], None)"
    if "\<forall>s \<in> set ss. \<forall>n \<in> set (walk (root s)). pos_tag n \<noteq> head_pos_tag"
    using that unfolding a by simp
  show ?thesis
    using a b by (simp add: source_sentences_def)
qed

text \<open>
  At "The cat chased the mouse": the subject and the object of the verb form the one
  triple; no node has tag 7, and nothing is yielded for it.
\<close>

theorem find_generic_triples_cross_product_witness:
  "source_sentences (A_Sentence example_sentence) = Inr [example_sentence]
   \<and> find_generic_triples (A_Sentence example_sentence) 28 11 18
       = ([(node_cat, node_chased, node_mouse)], None)
   \<and> list_all (\<lambda>n. pos_tag n \<noteq> 7) (walk (root example_sentence))
   \<and> find_generic_triples (A_Sentence example_sentence) 28 7 18 = ([], None)"
proof -
  note h = example_sentence_is_source
  have w: "walk (root example_sentence) = [node_chased, node_cat, node_The, node_mouse, node_the]"
    by (simp add: example_sentence_def node_chased_def node_cat_def node_The_def
          node_mouse_def node_the_def)
  have t: "pos_tag node_chased = 11" "pos_tag node_cat = 6" "pos_tag node_The = 5"
    "pos_tag node_mouse = 6" "pos_tag node_the = 5"
    "children node_chased = [node_cat, node_mouse]"
    "label node_cat = 28" "label node_mouse = 18"
    by (simp_all add: node_chased_def node_cat_def node_The_def node_mouse_def node_the_def)
  show ?thesis
    using h find_generic_triples_cross_product [OF h, of 28 11 18]
      find_generic_triples_cross_product [OF h, of 28 7 18]
    by (simp add: w t)
qed

text \<open>
  Claim C1 as stated fails when the two labels are equal: with \<open>r\<close> ranging over all the
  children labelled \<open>right_label\<close>, the verb of the example and its one child labelled 28
  would give the triple of that child with itself, and the code yields nothing.
\<close>

theorem find_generic_triples_same_label_counterexample:
  "find_generic_triples (A_Sentence example_sentence) 28 11 28 \<noteq>
     ([(l, head, r). s \<leftarrow> [example_sentence], head \<leftarrow> walk (root s), pos_tag head = 11,
         l \<leftarrow> children head, label l = 28,
         r \<leftarrow> children head, label r = 28], None)"
  by code_simp

lemma yield_left_deps_no_right: "yield_left_deps ls n [] = []"
  by (induction ls) auto

lemma match_nodes_same_label: "match_nodes ns lbl hp lbl = []"
  by (induction ns) (auto simp: collect_deps_filter yield_left_deps_no_right)

lemma match_sentences_same_label: "match_sentences ss lbl hp lbl = []"
  by (induction ss) (auto simp: match_nodes_same_label)

text \<open>
  Claim C9. With the same label on the left and on the right, \<open>find_generic_triples\<close>
  yields nothing for any \<open>Sentence\<close> or \<open>Document\<close> source and any tag: a matching child
  goes to the left partition, the right partition stays empty.
\<close>

theorem find_generic_triples_same_label_empty:
  "source_sentences src = Inr ss \<Longrightarrow>
   find_generic_triples src lbl head_pos_tag lbl = ([], None)"
  by (simp add: find_generic_triples_valid match_sentences_same_label)

theorem find_generic_triples_same_label_empty_witness:
  "source_sentences (A_Sentence example_sentence) = Inr [example_sentence]
   \<and> find_generic_triples (A_Sentence example_sentence) 28 11 28 = ([], None)"
  using example_sentence_is_source
    find_generic_triples_same_label_empty [OF example_sentence_is_source, of 28 11]
  by simp

section \<open>The multi-criteria matcher\<close>

lemma yield_from_each_no_error:
  "(\<And>x. x \<in> set xs \<Longrightarrow> snd (g x) = None) \<Longrightarrow>
   yield_from_each g xs = (concat (map (\<lambda>x. fst (g x)) xs), None)"
proof (induction xs)
  case Nil
  show ?case by simp
next
  case (Cons x xs)
  then have "snd (g x) = None" by simp
  then obtain vs where gx: "g x = (vs, None)" by (cases "g x") auto
  from Cons have "yield_from_each g xs = (concat (map (\<lambda>x. fst (g x)) xs), None)" by simp
  with gx show ?case by simp
qed

lemma yield_from_each_single: "yield_from_each g [x] = g x"
  by (cases "g x"; cases "snd (g x)") auto

lemma itertools_product_empty:
  "(itertools_product xs ys zs = []) = (xs = [] \<or> ys = [] \<or> zs = [])"
  by (cases xs; cases ys; cases zs) (auto simp: itertools_product_def)

lemma concat_concat_map:
  "concat (concat (map f xs)) = concat (map (\<lambda>x. concat (f x)) xs)"
  by (induction xs) auto

lemma multi_criteria_valid:
  assumes "source_sentences src = Inr ss"
  shows "find_generic_triples_multi_criteria src lls hps rls =
     ([t. l \<leftarrow> lls, p \<leftarrow> hps, r \<leftarrow> rls, t \<leftarrow> fst (find_generic_triples src l p r)], None)"
proof -
  have "yield_from_each (\<lambda>(l, h, r). find_generic_triples src l h r) xs =
      (concat (map (\<lambda>x. fst ((\<lambda>(l, h, r). find_generic_triples src l h r) x)) xs), None)" for xs
    by (rule yield_from_each_no_error) (auto simp: find_generic_triples_valid [OF assms])
  then show ?thesis
    by (simp add: find_generic_triples_multi_criteria_def itertools_product_def
          map_concat comp_def concat_concat_map)
qed

lemma multi_criteria_invalid:
  "find_generic_triples_multi_criteria Other_Object lls hps rls =
     ([], if lls = [] \<or> hps = [] \<or> rls = [] then None else Some TypeError)"
proof (cases "itertools_product lls hps rls")
  case Nil
  then show ?thesis
    using itertools_product_empty [of lls hps rls]
    by (simp add: find_generic_triples_multi_criteria_def)
next
  case (Cons x xs)
  then show ?thesis
    using itertools_product_empty [of lls hps rls]
    by (cases x) (simp add: find_generic_triples_multi_criteria_def find_generic_triples_invalid)
qed

text \<open>
  Claim C2. With one label, one tag and one label, the multi-criteria matcher is the
  generic matcher: the same items in the same order (and the same error for any other
  source). For a \<open>Sentence\<close> or \<open>Document\<close> source it yields, for the left labels
  outermost, the tags in the middle and the right labels innermost, the whole output of
  the generic matcher for each combination before the next.
\<close>

theorem multi_criteria_product_order:
  "find_generic_triples_multi_criteria src [L] [P] [R] = find_generic_triples src L P R
   \<and> (source_sentences src = Inr ss \<longrightarrow>
        find_generic_triples_multi_criteria src left_labels head_pos_tags right_labels =
          ([t. l \<leftarrow> left_labels, p \<leftarrow> head_pos_tags, r \<leftarrow> right_labels,
               t \<leftarrow> fst (find_generic_triples src l p r)], None))"
  using multi_criteria_valid [of src ss left_labels head_pos_tags right_labels]
  by (simp add: find_generic_triples_multi_criteria_def itertools_product_def
        yield_from_each_single del: yield_from_each.simps)

theorem multi_criteria_product_order_witness:
  "source_sentences (A_Sentence example_sentence) = Inr [example_sentence]
   \<and> find_generic_triples_multi_criteria (A_Sentence example_sentence) [28, 18] [11] [18, 28]
       = ([(node_cat, node_chased, node_mouse), (node_mouse, node_chased, node_cat)], None)
   \<and> find_generic_triples_multi_criteria (A_Sentence example_sentence) [28] [11] [18]
       = find_generic_triples (A_Sentence example_sentence) 28 11 18"
proof -
  have e: "find_generic_triples (A_Sentence example_sentence) 28 11 18
             = ([(node_cat, node_chased, node_mouse)], None)"
    "find_generic_triples (A_Sentence example_sentence) 28 11 28 = ([], None)"
    "find_generic_triples (A_Sentence example_sentence) 18 11 18 = ([], None)"
    "find_generic_triples (A_Sentence example_sentence) 18 11 28
             = ([(node_mouse, node_chased, node_cat)], None)"
    by code_simp+
  show ?thesis
    using example_sentence_is_source
      multi_criteria_product_order [of "A_Sentence example_sentence" 28 11 18
        "[example_sentence]" "[28, 18]" "[11]" "[18, 28]"]
    by (simp add: e)
qed

text \<open>
  Claim C6, as amended. For a source that is neither a \<open>Sentence\<close> nor a \<open>Document\<close> no
  matcher yields a triple. \<open>find_generic_triples\<close> always ends with the error;
  \<open>find_generic_triples_multi_criteria\<close> ends with it when the three lists of criteria are
  all non-empty, and without an error when one of them is empty;
  \<open>find_verb_triples\<close> ends with it when a voice is enabled, and without an error when
  both are disabled.
\<close>

theorem invalid_source_error:
  "find_generic_triples Other_Object left_label head_pos_tag right_label = ([], Some TypeError)
   \<and> find_generic_triples_multi_criteria Other_Object left_labels head_pos_tags right_labels =
       ([], if left_labels = [] \<or> head_pos_tags = [] \<or> right_labels = [] then None
            else Some TypeError)
   \<and> find_verb_triples E Other_Object active_voice passive_voice =
       ([], if active_voice \<or> passive_voice then Some TypeError else None)"
  by (simp add: find_generic_triples_invalid multi_criteria_invalid find_verb_triples_def)

text \<open>
  Claim C6 as stated fails: with both voices disabled, and with an empty list of
  criteria, the generic matcher is never called and no error is signalled.
\<close>

theorem invalid_source_no_error_counterexample:
  "snd (find_verb_triples example_enums Other_Object False False) = None
   \<and> snd (find_generic_triples_multi_criteria Other_Object [] [11] [18]) = None"
  by (simp add: find_verb_triples_def find_generic_triples_multi_criteria_def
        itertools_product_def)

section \<open>Verb triples\<close>

text \<open>
  Claim C3. For a \<open>Sentence\<close> or \<open>Document\<close> source, \<open>find_verb_triples\<close> with both voices
  yields the active-voice triples and then the passive-voice triples; the active voice
  is the multi-criteria matcher on \<open>[NSUBJ]\<close>, \<open>[VERB]\<close>, \<open>[DOBJ, PREP]\<close>, the passive voice
  on \<open>[NSUBJPASS]\<close>, \<open>[VERB]\<close>, \<open>[POBJ, PREP]\<close>; neither ends with an error; with both
  voices disabled nothing is yielded.
\<close>

theorem find_verb_triples_voice_composition:
  "source_sentences src = Inr ss \<Longrightarrow>
   find_verb_triples E src True True =
     (fst (find_verb_triples E src True False) @ fst (find_verb_triples E src False True), None)
   \<and> find_verb_triples E src True False =
       find_generic_triples_multi_criteria src
         [Label_NSUBJ E] [Tag_VERB E] [Label_DOBJ E, Label_PREP E]
   \<and> find_verb_triples E src False True =
       find_generic_triples_multi_criteria src
         [Label_NSUBJPASS E] [Tag_VERB E] [Label_POBJ E, Label_PREP E]
   \<and> snd (find_verb_triples E src True False) = None
   \<and> snd (find_verb_triples E src False True) = None
   \<and> find_verb_triples E src False False = ([], None)"
  by (simp add: find_verb_triples_def multi_criteria_valid)

theorem find_verb_triples_voice_composition_witness:
  "source_sentences (A_Sentence example_sentence) = Inr [example_sentence]
   \<and> find_verb_triples example_enums (A_Sentence example_sentence) True True
       = ([(node_cat, node_chased, node_mouse)], None)
   \<and> find_verb_triples example_enums (A_Sentence example_sentence) False False = ([], None)"
proof -
  have e: "find_verb_triples example_enums (A_Sentence example_sentence) True False
             = ([(node_cat, node_chased, node_mouse)], None)"
    "find_verb_triples example_enums (A_Sentence example_sentence) False True = ([], None)"
    by code_simp+
  show ?thesis
    using example_sentence_is_source
      find_verb_triples_voice_composition [OF example_sentence_is_source, of example_enums]
    by (simp add: e)
qed

section \<open>The printable tree\<close>

lemma negative_max_depth:
  "(\<forall>m. max_depth = Some m \<longrightarrow> m < 0 \<longrightarrow>
      get_tree_statements t max_depth depth verbose = get_tree_statements t None depth verbose)"
  "(\<forall>m. max_depth' = Some m \<longrightarrow> m < 0 \<longrightarrow>
      extend_statements cs max_depth' depth' verbose' statements
        = extend_statements cs None depth' verbose' statements)"
proof (induction t max_depth depth verbose and cs max_depth' depth' verbose' statements
    rule: get_tree_statements_extend_statements.induct)
  case (1 i l c lm p cs pm lbm max_depth depth verbose)
  show ?case
  proof (intro allI impI)
    fix m assume m: "max_depth = Some m" "m < 0"
    show "get_tree_statements (Tree i l c lm p cs pm lbm) max_depth depth verbose
        = get_tree_statements (Tree i l c lm p cs pm lbm) None depth verbose"
    proof (cases "get_string_repr (Tree i l c lm p cs pm lbm) verbose")
      case (Inl e)
      with m show ?thesis by simp
    next
      case (Inr s)
      with m "1" show ?thesis by (simp add: Let_def)
    qed
  qed
next
  case (2 max_depth depth verbose statements)
  show ?case by simp
next
  case (3 n ns max_depth depth verbose statements)
  show ?case
  proof (intro allI impI)
    fix m assume m: "max_depth = Some m" "m < 0"
    with "3.IH"(1) have a: "get_tree_statements n max_depth depth verbose
        = get_tree_statements n None depth verbose" by simp
    show "extend_statements (n # ns) max_depth depth verbose statements
        = extend_statements (n # ns) None depth verbose statements"
    proof (cases "get_tree_statements n max_depth depth verbose")
      case (Inl e)
      with a have "get_tree_statements n None depth verbose = Inl e" by simp
      with Inl show ?thesis by simp
    next
      case (Inr sts)
      with a have b: "get_tree_statements n None depth verbose = Inr sts" by simp
      from "3.IH"(2) [OF Inr] m
      have "extend_statements ns max_depth depth verbose (statements @ sts)
          = extend_statements ns None depth verbose (statements @ sts)" by simp
      with Inr b show ?thesis by simp
    qed
  qed
qed

text \<open>
  Claim C10. With \<open>max_depth = 0\<close> the printable tree is the empty string, for every
  tree; with a negative \<open>max_depth\<close> it is the printable tree with no maximum depth.
\<close>

theorem max_depth_zero_and_negative:
  "get_printable_tree t (Some 0) verbose = Inr []
   \<and> (m < 0 \<longrightarrow> get_printable_tree t (Some m) verbose = get_printable_tree t None verbose)"
  using negative_max_depth(1) [of "Some m" t 1 verbose]
  by (cases t) (simp add: get_printable_tree_def)

lemma comprehend_append:
  "comprehend f (xs @ ys) =
     (case comprehend f xs of
        Inl e \<Rightarrow> Inl e
      | Inr a \<Rightarrow> (case comprehend f ys of Inl e \<Rightarrow> Inl e | Inr b \<Rightarrow> Inr (a @ b)))"
  by (induction xs) (auto split: sum.splits)

lemma statement_prefix_line_prefix: "statement_prefix = line_prefix"
  by (rule ext) (simp add: statement_prefix_def line_prefix_def str_times_def)

lemma statements_walk_depth:
  "max_depth = None \<longrightarrow> get_tree_statements t max_depth depth verbose =
     comprehend (tree_line statement_prefix verbose) (walk_depth t depth)"
  "max_depth' = None \<longrightarrow> extend_statements cs max_depth' depth' verbose' statements =
     (case comprehend (tree_line statement_prefix verbose') (walk_depth_children cs depth') of
        Inl e \<Rightarrow> Inl e
      | Inr ls \<Rightarrow> Inr (statements @ ls))"
proof (induction t max_depth depth verbose and cs max_depth' depth' verbose' statements
    rule: get_tree_statements_extend_statements.induct)
  case (1 i l c lm p cs pm lbm max_depth depth verbose)
  show ?case
  proof
    assume n: "max_depth = None"
    let ?T = "Tree i l c lm p cs pm lbm"
    show "get_tree_statements ?T max_depth depth verbose =
       comprehend (tree_line statement_prefix verbose) (walk_depth ?T depth)"
    proof (cases "get_string_repr ?T verbose")
      case (Inl e)
      with n show ?thesis by (simp add: tree_line_def)
    next
      case (Inr s)
      from n have c: "\<not> (max_depth \<noteq> None \<and> max_depth = Some 0)" by simp
      from "1" [OF c refl refl refl Inr] n
      have ih: "extend_statements cs None (depth + 1) verbose [statement_prefix depth @ s] =
        (case comprehend (tree_line statement_prefix verbose) (walk_depth_children cs (depth + 1)) of
           Inl e \<Rightarrow> Inl e
         | Inr ls \<Rightarrow> Inr ([statement_prefix depth @ s] @ ls))" by simp
      have tl: "tree_line statement_prefix verbose (depth, ?T) = Inr (statement_prefix depth @ s)"
        using Inr by (simp add: tree_line_def)
      have "get_tree_statements ?T max_depth depth verbose =
          extend_statements cs None (depth + 1) verbose [statement_prefix depth @ s]"
        using n Inr by (simp add: Let_def)
      also note ih
      also have "(case comprehend (tree_line statement_prefix verbose) (walk_depth_children cs (depth + 1)) of
           Inl e \<Rightarrow> Inl e
         | Inr ls \<Rightarrow> Inr ([statement_prefix depth @ s] @ ls)) =
         comprehend (tree_line statement_prefix verbose) (walk_depth ?T depth)"
        using tl by (simp split: sum.splits)
      finally show ?thesis .
    qed
  qed
next
  case (2 max_depth depth verbose statements)
  show ?case by simp
next
  case (3 n ns max_depth depth verbose statements)
  show ?case
  proof
    assume m: "max_depth = None"
    with "3.IH"(1) have a: "get_tree_statements n max_depth depth verbose =
       comprehend (tree_line statement_prefix verbose) (walk_depth n depth)" by simp
    show "extend_statements (n # ns) max_depth depth verbose statements =
      (case comprehend (tree_line statement_prefix verbose) (walk_depth_children (n # ns) depth) of
         Inl e \<Rightarrow> Inl e
       | Inr ls \<Rightarrow> Inr (statements @ ls))"
    proof (cases "get_tree_statements n max_depth depth verbose")
      case (Inl e)
      with a have "comprehend (tree_line statement_prefix verbose) (walk_depth n depth) = Inl e"
        by simp
      with Inl show ?thesis by (simp add: comprehend_append)
    next
      case (Inr sts)
      with a have b: "comprehend (tree_line statement_prefix verbose) (walk_depth n depth) = Inr sts"
        by simp
      from "3.IH"(2) [OF Inr] m
      have "extend_statements ns max_depth depth verbose (statements @ sts) =
        (case comprehend (tree_line statement_prefix verbose) (walk_depth_children ns depth) of
           Inl e \<Rightarrow> Inl e
         | Inr ls \<Rightarrow> Inr ((statements @ sts) @ ls))" by simp
      with Inr b show ?thesis by (simp add: comprehend_append split: sum.splits)
    qed
  qed
qed

lemma walk_depth_nodes:
  "map snd (walk_depth t depth) = walk t"
  "map snd (walk_depth_children cs depth') = walk_children cs"
  by (induction t depth and cs depth' rule: walk_depth_walk_depth_children.induct) auto

text \<open>
  Claim C8, as amended. With no maximum depth, the printable tree has one line for each
  node of the tree, in pre-order, joined with single newlines; the line of a node is
  its prefix followed by its string representation, and the prefix is empty at depth
  1, \<open>'|- '\<close> at depth 2, and at a depth greater than 2 the string \<open>'   '\<close> repeated
  \<open>depth - 2\<close> times followed by \<open>'|- '\<close>. (A string representation that raises ends the
  rendering with its error.)
\<close>

theorem printable_tree_lines:
  "get_printable_tree t None verbose =
     (case comprehend (tree_line line_prefix verbose) (walk_depth t 1) of
        Inl e \<Rightarrow> Inl e
      | Inr ls \<Rightarrow> Inr (join [CHR 0x0A] ls))
   \<and> map snd (walk_depth t 1) = walk t"
  using statements_walk_depth(1) [of None t 1 verbose]
  by (simp add: get_printable_tree_def statement_prefix_line_prefix walk_depth_nodes)

text \<open>
  Claim C8 as stated puts \<open>'|- '\<close> before the repeated indentation; the nodes at depth 3
  of the example are printed with the indentation first.
\<close>

theorem printable_tree_prefix_order_counterexample:
  "get_printable_tree node_chased None False \<noteq>
     (case comprehend (tree_line stated_line_prefix False) (walk_depth node_chased 1) of
        Inl e \<Rightarrow> Inl e
      | Inr ls \<Rightarrow> Inr (join [CHR 0x0A] ls))"
  by code_simp

theorem printable_tree_lines_witness:
  "get_printable_tree node_chased None False =
     Inr (''chased (pos_tag=11, label=54)'' @ [CHR 0x0A] @
          ''|- cat (pos_tag=6, label=28)'' @ [CHR 0x0A] @
          ''   |- The (pos_tag=5, label=16)'' @ [CHR 0x0A] @
          ''|- mouse (pos_tag=6, label=18)'' @ [CHR 0x0A] @
          ''   |- the (pos_tag=5, label=16)'')"
proof -
  have "(case comprehend (tree_line line_prefix False) (walk_depth node_chased 1) of
        Inl e \<Rightarrow> Inl e
      | Inr ls \<Rightarrow> Inr (join [CHR 0x0A] ls)) =
     Inr (''chased (pos_tag=11, label=54)'' @ [CHR 0x0A] @
          ''|- cat (pos_tag=6, label=28)'' @ [CHR 0x0A] @
          ''   |- The (pos_tag=5, label=16)'' @ [CHR 0x0A] @
          ''|- mouse (pos_tag=6, label=18)'' @ [CHR 0x0A] @
          ''   |- the (pos_tag=5, label=16)'')"
    by code_simp
  with printable_tree_lines [of node_chased False] show ?thesis by simp
qed

theorem max_depth_zero_and_negative_witness:
  "get_printable_tree node_chased (Some (- 3)) False =
     Inr (''chased (pos_tag=11, label=54)'' @ [CHR 0x0A] @
          ''|- cat (pos_tag=6, label=28)'' @ [CHR 0x0A] @
          ''   |- The (pos_tag=5, label=16)'' @ [CHR 0x0A] @
          ''|- mouse (pos_tag=6, label=18)'' @ [CHR 0x0A] @
          ''   |- the (pos_tag=5, label=16)'')
   \<and> get_printable_tree node_chased (Some 0) False = Inr []"
proof -
  have "get_printable_tree node_chased None False =
     Inr (''chased (pos_tag=11, label=54)'' @ [CHR 0x0A] @
          ''|- cat (pos_tag=6, label=28)'' @ [CHR 0x0A] @
          ''   |- The (pos_tag=5, label=16)'' @ [CHR 0x0A] @
          ''|- mouse (pos_tag=6, label=18)'' @ [CHR 0x0A] @
          ''   |- the (pos_tag=5, label=16)'')"
    by code_simp
  with max_depth_zero_and_negative [of node_chased False "- 3"] show ?thesis by simp
qed


section \<open>Tree construction\<close>

lemma enumerate_nth: "enumerate 0 xs = map (\<lambda>i. (i, xs ! i)) [0..<length xs]"
  by (rule nth_equalityI) (auto simp: nth_enumerate_eq)

lemma sentence_root_indices_filter:
  "sentence_root_indices E all_tokens =
     filter (\<lambda>i. dependency_edge_label (all_tokens ! i) = Label_ROOT E) [0..<length all_tokens]"
  by (simp add: sentence_root_indices_def enumerate_nth comp_def map_filter_if [where f = "\<lambda>x. x", simplified])

lemma child_indices_filter:
  "child_indices E token_index all_tokens =
     map int (filter (\<lambda>i. dependency_edge_label (all_tokens ! i) \<noteq> Label_ROOT E
                         \<and> head_token_index (all_tokens ! i) = token_index)
                [0..<length all_tokens])"
  by (simp add: child_indices_def enumerate_nth comp_def map_filter_if)

lemma comprehend_Inr_map:
  "comprehend f xs = Inr ys \<Longrightarrow> map f xs = map Inr ys"
proof (induction xs arbitrary: ys)
  case Nil
  then show ?case by simp
next
  case (Cons x xs)
  then show ?case by (auto split: sum.splits)
qed

lemma comprehend_all_Inr:
  "(\<And>x. x \<in> set xs \<Longrightarrow> \<exists>y. f x = Inr y) \<Longrightarrow> \<exists>ys. comprehend f xs = Inr ys"
proof (induction xs)
  case Nil
  show ?case by simp
next
  case (Cons x xs)
  then obtain y where y: "f x = Inr y" by auto
  from Cons obtain ys where "comprehend f xs = Inr ys" by auto
  with y show ?case by simp
qed

lemma root_convention_nth:
  "root_convention E all_tokens \<Longrightarrow> j < length all_tokens \<Longrightarrow>
   (dependency_edge_label (all_tokens ! j) = Label_ROOT E)
     = (head_token_index (all_tokens ! j) = int j)"
  by (simp add: root_convention_def enumerate_nth list_all_iff)

lemma py_getitem_nth: "j < length xs \<Longrightarrow> py_getitem xs (int j) = Inr (xs ! j)"
  by (simp add: py_getitem_def)

lemma comprehend_Inr_member:
  "comprehend f xs = Inr ys \<Longrightarrow> y \<in> set ys \<Longrightarrow> \<exists>x \<in> set xs. f x = Inr y"
proof -
  assume "comprehend f xs = Inr ys" and y: "y \<in> set ys"
  then have "map f xs = map Inr ys" by (simp add: comprehend_Inr_map)
  with y have "Inr y \<in> set (map f xs)" by simp
  then show ?thesis by auto
qed

lemma create_tree_InrE:
  assumes "create_tree k E i all_tokens = Inr t"
  obtains frames token cs where "k = Suc frames"
    and "py_getitem all_tokens i = Inr token"
    and "comprehend (\<lambda>i. create_tree frames E i all_tokens) (child_indices E i all_tokens)
           = Inr cs"
    and "t = Tree i (dependency_edge_label token) (text_content token) (token_lemma token)
             (part_of_speech_tag token) cs None None"
  using assms by (cases k) (auto split: sum.splits)

lemma child_indices_member:
  "x \<in> set (child_indices E i all_tokens) \<Longrightarrow>
   \<exists>j < length all_tokens. x = int j
      \<and> dependency_edge_label (all_tokens ! j) \<noteq> Label_ROOT E
      \<and> head_token_index (all_tokens ! j) = i"
  by (auto simp: child_indices_filter)

lemma children_never_root:
  "create_tree k E i all_tokens = Inr t \<Longrightarrow> n \<in> set (walk t) \<Longrightarrow> c \<in> set (children n) \<Longrightarrow>
   label c \<noteq> Label_ROOT E \<and> (root_convention E all_tokens \<longrightarrow> index c \<noteq> index n)"
proof (induction k arbitrary: i t)
  case 0
  then show ?case by simp
next
  case (Suc k)
  from Suc.prems(1) obtain frames token cs where
    fr: "Suc k = Suc frames"
    and tok: "py_getitem all_tokens i = Inr token"
    and cs': "comprehend (\<lambda>i. create_tree frames E i all_tokens) (child_indices E i all_tokens)
               = Inr cs"
    and t: "t = Tree i (dependency_edge_label token) (text_content token) (token_lemma token)
             (part_of_speech_tag token) cs None None"
    by (rule create_tree_InrE)
  from fr cs' have
    cs: "comprehend (\<lambda>i. create_tree k E i all_tokens) (child_indices E i all_tokens) = Inr cs"
    by simp
  from Suc.prems(2) have "n = t \<or> (\<exists>c' \<in> set cs. n \<in> set (walk c'))"
    unfolding t by (auto simp: walk_children_concat)
  then show ?case
  proof
    assume nt: "n = t"
    with Suc.prems(3) have "c \<in> set cs" unfolding t by simp
    from comprehend_Inr_member [OF cs this] obtain x where
      x: "x \<in> set (child_indices E i all_tokens)" and cx: "create_tree k E x all_tokens = Inr c"
      by auto
    from child_indices_member [OF x] obtain j where j: "j < length all_tokens" "x = int j"
      "dependency_edge_label (all_tokens ! j) \<noteq> Label_ROOT E"
      "head_token_index (all_tokens ! j) = i" by auto
    from cx obtain fr' tok' cs'' where
      "k = Suc fr'"
      "py_getitem all_tokens x = Inr tok'"
      "comprehend (\<lambda>i. create_tree fr' E i all_tokens) (child_indices E x all_tokens)
           = Inr cs''"
      "c = Tree x (dependency_edge_label tok') (text_content tok') (token_lemma tok')
             (part_of_speech_tag tok') cs'' None None"
      by (rule create_tree_InrE)
    with j(1,2)
    have c: "label c = dependency_edge_label (all_tokens ! j)" "index c = int j"
      by (simp_all add: py_getitem_nth)
    have "index n = i" unfolding nt t by simp
    with c j root_convention_nth [of E all_tokens j] show ?thesis by auto
  next
    assume "\<exists>c' \<in> set cs. n \<in> set (walk c')"
    then obtain c' where c': "c' \<in> set cs" "n \<in> set (walk c')" by auto
    from comprehend_Inr_member [OF cs c'(1)] obtain x where
      "create_tree k E x all_tokens = Inr c'" by auto
    from Suc.IH [OF this c'(2) Suc.prems(3)] show ?thesis .
  qed
qed

lemma child_indices_convention:
  assumes "root_convention E all_tokens"
  shows "child_indices E i all_tokens =
     map int (filter (\<lambda>j. int j \<noteq> i \<and> head_token_index (all_tokens ! j) = i)
                [0..<length all_tokens])"
proof -
  have "filter (\<lambda>j. dependency_edge_label (all_tokens ! j) \<noteq> Label_ROOT E
                         \<and> head_token_index (all_tokens ! j) = i) [0..<length all_tokens]
      = filter (\<lambda>j. int j \<noteq> i \<and> head_token_index (all_tokens ! j) = i) [0..<length all_tokens]"
    by (rule filter_cong) (auto simp: root_convention_nth [OF assms])
  then show ?thesis by (simp add: child_indices_filter)
qed

text \<open>
  Claim C4. On a token array that follows the convention (a token is labelled \<open>ROOT\<close>
  exactly when its head index is its own index), \<open>_create_tree\<close> builds the node of
  \<open>all_tokens[token_index]\<close> with one child, built the same way, for every other token
  whose head index is \<open>token_index\<close>, in the order of the array. In every tree it
  builds, no child is labelled \<open>ROOT\<close> and no child has the index of its parent: the
  root sentinel is never a child of itself.
\<close>

theorem create_tree_children:
  "root_convention E all_tokens \<Longrightarrow> py_getitem all_tokens token_index = Inr token \<Longrightarrow>
   create_tree (Suc frames) E token_index all_tokens =
     (case comprehend (\<lambda>i. create_tree frames E i all_tokens)
             (map int (filter (\<lambda>j. int j \<noteq> token_index
                                   \<and> head_token_index (all_tokens ! j) = token_index)
                         [0..<length all_tokens])) of
        Inl e \<Rightarrow> Inl e
      | Inr cs \<Rightarrow>
          Inr (Tree token_index (dependency_edge_label token) (text_content token)
                 (token_lemma token) (part_of_speech_tag token) cs None None))
   \<and> (create_tree k E i all_tokens = Inr t \<longrightarrow>
        (\<forall>n \<in> set (walk t). \<forall>c \<in> set (children n).
           label c \<noteq> Label_ROOT E \<and> index c \<noteq> index n))"
proof -
  assume conv: "root_convention E all_tokens"
    and tok: "py_getitem all_tokens token_index = Inr token"
  have a: "create_tree (Suc frames) E token_index all_tokens =
     (case comprehend (\<lambda>i. create_tree frames E i all_tokens)
             (map int (filter (\<lambda>j. int j \<noteq> token_index
                                   \<and> head_token_index (all_tokens ! j) = token_index)
                         [0..<length all_tokens])) of
        Inl e \<Rightarrow> Inl e
      | Inr cs \<Rightarrow>
          Inr (Tree token_index (dependency_edge_label token) (text_content token)
                 (token_lemma token) (part_of_speech_tag token) cs None None))"
    using tok by (simp add: child_indices_convention [OF conv])
  have b: "label c \<noteq> Label_ROOT E \<and> index c \<noteq> index n"
    if "create_tree k E i all_tokens = Inr t" "n \<in> set (walk t)" "c \<in> set (children n)" for n c
    using children_never_root [OF that] conv by simp
  from a b show ?thesis by blast
qed

theorem create_tree_children_witness:
  "root_convention example_enums example_tokens
   \<and> py_getitem example_tokens 2 = Inr (example_tokens ! 2)
   \<and> filter (\<lambda>j. int j \<noteq> 2 \<and> head_token_index (example_tokens ! j) = 2)
        [0..<length example_tokens] = [1, 4]
   \<and> create_tree 6 example_enums 2 example_tokens = Inr node_chased
   \<and> list_all (\<lambda>n. list_all (\<lambda>c. label c \<noteq> Label_ROOT example_enums \<and> index c \<noteq> index n)
                  (children n)) (walk node_chased)"
proof -
  have e: "root_convention example_enums example_tokens"
    "py_getitem example_tokens 2 = Inr (example_tokens ! 2)"
    "filter (\<lambda>j. int j \<noteq> 2 \<and> head_token_index (example_tokens ! j) = 2)
        [0..<length example_tokens] = [1, 4]"
    "create_tree 6 example_enums 2 example_tokens = Inr node_chased"
    by code_simp+
  from create_tree_children [OF e(1) e(2), of 5 6 2 node_chased] e(4)
  have "\<forall>n \<in> set (walk node_chased). \<forall>c \<in> set (children n).
           label c \<noteq> Label_ROOT example_enums \<and> index c \<noteq> index n"
    by blast
  with e show ?thesis by (simp add: list_all_iff)
qed

section \<open>The walk of a built tree\<close>

lemma wf_root:
  "well_formed_sentence E all_tokens r \<Longrightarrow>
   r < length all_tokens \<and> dependency_edge_label (all_tokens ! r) = Label_ROOT E"
  by (simp add: well_formed_sentence_def)

lemma wf_other:
  "well_formed_sentence E all_tokens r \<Longrightarrow> j < length all_tokens \<Longrightarrow> j \<noteq> r \<Longrightarrow>
   dependency_edge_label (all_tokens ! j) \<noteq> Label_ROOT E
   \<and> int (head_of all_tokens j) = head_token_index (all_tokens ! j)
   \<and> head_of all_tokens j < length all_tokens"
  by (auto simp: well_formed_sentence_def list_all_iff head_of_def)

lemma wf_reach:
  "well_formed_sentence E all_tokens r \<Longrightarrow> j < length all_tokens \<Longrightarrow>
   \<exists>d \<le> length all_tokens. (head_of all_tokens ^^ d) j = r"
proof -
  assume "well_formed_sentence E all_tokens r" and "j < length all_tokens"
  then have "list_ex (\<lambda>d. (head_of all_tokens ^^ d) j = r) [0..<Suc (length all_tokens)]"
    by (simp add: well_formed_sentence_def list_all_iff del: upt_Suc)
  then obtain d where "d \<in> set [0..<Suc (length all_tokens)]"
    and r: "(head_of all_tokens ^^ d) j = r"
    unfolding list_ex_iff by blast
  then have "d \<le> length all_tokens" by (simp del: upt_Suc)
  with r show ?thesis by blast
qed

lemma root_distance_root: "root_distance all_tokens r r = 0"
  by (simp add: root_distance_def)

lemma root_distance_reach:
  assumes "well_formed_sentence E all_tokens r" "j < length all_tokens"
  shows "(head_of all_tokens ^^ root_distance all_tokens r j) j = r"
    and "root_distance all_tokens r j \<le> length all_tokens"
proof -
  from wf_reach [OF assms] obtain d where d: "d \<le> length all_tokens"
    "(head_of all_tokens ^^ d) j = r" by auto
  show "(head_of all_tokens ^^ root_distance all_tokens r j) j = r"
    unfolding root_distance_def using d(2) by (rule LeastI)
  have "root_distance all_tokens r j \<le> d"
    unfolding root_distance_def using d(2) by (rule Least_le)
  with d(1) show "root_distance all_tokens r j \<le> length all_tokens" by simp
qed

lemma root_distance_step:
  assumes "well_formed_sentence E all_tokens r" "j < length all_tokens" "j \<noteq> r"
  shows "root_distance all_tokens r j = Suc (root_distance all_tokens r (head_of all_tokens j))"
proof -
  from wf_reach [OF assms(1,2)] obtain d where
    d: "(head_of all_tokens ^^ d) j = r" by auto
  from assms(3) have n0: "\<not> (head_of all_tokens ^^ 0) j = r" by simp
  have "(LEAST d. (head_of all_tokens ^^ d) j = r)
      = Suc (LEAST m. (head_of all_tokens ^^ Suc m) j = r)"
    using d n0 by (rule Least_Suc)
  then show ?thesis
    by (simp add: root_distance_def funpow_swap1)
qed

lemma root_distance_pos:
  assumes "well_formed_sentence E all_tokens r" "j < length all_tokens"
  shows "(root_distance all_tokens r j = 0) = (j = r)"
proof (cases "j = r")
  case True
  then show ?thesis by (simp add: root_distance_root)
next
  case False
  with root_distance_step [OF assms False] show ?thesis by simp
qed

lemma ancestor_distance:
  assumes wf: "well_formed_sentence E all_tokens r" and j: "j < length all_tokens"
  shows "m \<le> root_distance all_tokens r j \<Longrightarrow>
     (head_of all_tokens ^^ m) j < length all_tokens
     \<and> root_distance all_tokens r ((head_of all_tokens ^^ m) j) = root_distance all_tokens r j - m"
proof (induction m)
  case 0
  with j show ?case by simp
next
  case (Suc m)
  let ?a = "(head_of all_tokens ^^ m) j"
  from Suc have a: "?a < length all_tokens"
    "root_distance all_tokens r ?a = root_distance all_tokens r j - m" by simp_all
  with Suc.prems have "root_distance all_tokens r ?a \<noteq> 0" by simp
  with root_distance_pos [OF wf a(1)] have ar: "?a \<noteq> r" by simp
  from wf_other [OF wf a(1) ar] root_distance_step [OF wf a(1) ar] a(2)
  show ?case by simp
qed

lemma child_indices_wf:
  assumes wf: "well_formed_sentence E all_tokens r" and i: "i < length all_tokens"
  shows "child_indices E (int i) all_tokens =
     map int (filter (\<lambda>j. j \<noteq> r \<and> head_of all_tokens j = i) [0..<length all_tokens])"
proof -
  have "filter (\<lambda>j. dependency_edge_label (all_tokens ! j) \<noteq> Label_ROOT E
                         \<and> head_token_index (all_tokens ! j) = int i) [0..<length all_tokens]
      = filter (\<lambda>j. j \<noteq> r \<and> head_of all_tokens j = i) [0..<length all_tokens]"
  proof (rule filter_cong [OF refl])
    fix j assume "j \<in> set [0..<length all_tokens]"
    then have j: "j < length all_tokens" by simp
    show "(dependency_edge_label (all_tokens ! j) \<noteq> Label_ROOT E
             \<and> head_token_index (all_tokens ! j) = int i)
        = (j \<noteq> r \<and> head_of all_tokens j = i)"
    proof (cases "j = r")
      case True
      with wf_root [OF wf] show ?thesis by simp
    next
      case False
      from wf_other [OF wf j False] False show ?thesis by auto
    qed
  qed
  then show ?thesis by (simp add: child_indices_filter)
qed

lemma descendants_self:
  "i < length all_tokens \<Longrightarrow> i \<in> descendants all_tokens r i"
  by (simp add: descendants_def)

lemma descendants_root:
  assumes "well_formed_sentence E all_tokens r"
  shows "descendants all_tokens r r = {0..<length all_tokens}"
  using root_distance_reach(1) [OF assms]
  by (auto simp: descendants_def root_distance_root)

lemma descendants_child:
  assumes wf: "well_formed_sentence E all_tokens r"
    and c: "c < length all_tokens" "c \<noteq> r" "head_of all_tokens c = i"
    and j: "j \<in> descendants all_tokens r c"
  shows "j \<in> descendants all_tokens r i"
proof -
  let ?d = "root_distance all_tokens r"
  from root_distance_step [OF wf c(1,2)] c(3) have dc: "?d c = Suc (?d i)" by simp
  from j have jl: "j < length all_tokens" and le: "?d c \<le> ?d j"
    and at: "(head_of all_tokens ^^ (?d j - ?d c)) j = c"
    by (simp_all add: descendants_def)
  from le dc have "?d j - ?d i = Suc (?d j - ?d c)" by simp
  with at c(3) have "(head_of all_tokens ^^ (?d j - ?d i)) j = i" by simp
  with jl le dc show ?thesis by (simp add: descendants_def)
qed

lemma descendants_cases:
  assumes wf: "well_formed_sentence E all_tokens r"
    and j: "j \<in> descendants all_tokens r i" "j \<noteq> i"
  shows "\<exists>c. c < length all_tokens \<and> c \<noteq> r \<and> head_of all_tokens c = i
            \<and> j \<in> descendants all_tokens r c"
proof -
  let ?d = "root_distance all_tokens r"
  let ?p = "head_of all_tokens"
  from j(1) have jl: "j < length all_tokens" and le: "?d i \<le> ?d j"
    and at: "(?p ^^ (?d j - ?d i)) j = i"
    by (simp_all add: descendants_def)
  from at j(2) have "?d j - ?d i \<noteq> 0" by (auto intro: ccontr)
  then obtain k where k: "?d j - ?d i = Suc k" by (cases "?d j - ?d i") auto
  let ?c = "(?p ^^ k) j"
  from k have kle: "k \<le> ?d j" by simp
  from ancestor_distance [OF wf jl kle]
  have cl: "?c < length all_tokens" and dc: "?d ?c = ?d j - k" by simp_all
  from k dc have "?d ?c \<noteq> 0" by simp
  with root_distance_pos [OF wf cl] have cr: "?c \<noteq> r" by simp
  from at k have pc: "?p ?c = i" by simp
  from dc k have "?d j - ?d ?c = k" by simp
  with jl dc have "j \<in> descendants all_tokens r ?c" by (simp add: descendants_def)
  with cl cr pc show ?thesis by blast
qed

lemma descendants_disjoint:
  assumes wf: "well_formed_sentence E all_tokens r"
    and c1: "c1 < length all_tokens" "c1 \<noteq> r" "head_of all_tokens c1 = i"
    and c2: "c2 < length all_tokens" "c2 \<noteq> r" "head_of all_tokens c2 = i"
    and j: "j \<in> descendants all_tokens r c1" "j \<in> descendants all_tokens r c2"
  shows "c1 = c2"
proof -
  let ?d = "root_distance all_tokens r"
  from root_distance_step [OF wf c1(1,2)] root_distance_step [OF wf c2(1,2)] c1(3) c2(3)
  have "?d c1 = ?d c2" by simp
  with j show ?thesis by (simp add: descendants_def)
qed

lemma descendants_not_parent:
  assumes wf: "well_formed_sentence E all_tokens r"
    and c: "c < length all_tokens" "c \<noteq> r" "head_of all_tokens c = i"
  shows "i \<notin> descendants all_tokens r c"
  using root_distance_step [OF wf c(1,2)] c(3) by (simp add: descendants_def)

lemma disjoint_walks:
  "list_all2 (\<lambda>c t. distinct (f t) \<and> set (f t) = D c) cs ts \<Longrightarrow> distinct cs \<Longrightarrow>
   (\<And>c1 c2. c1 \<in> set cs \<Longrightarrow> c2 \<in> set cs \<Longrightarrow> c1 \<noteq> c2 \<Longrightarrow> D c1 \<inter> D c2 = {}) \<Longrightarrow>
   distinct (concat (map f ts)) \<and> set (concat (map f ts)) = (\<Union>c \<in> set cs. D c)"
proof (induction cs ts rule: list_all2_induct)
  case Nil
  show ?case by simp
next
  case (Cons c cs t ts)
  from Cons.prems have dc: "distinct cs" and cn: "c \<notin> set cs" by simp_all
  have ih: "distinct (concat (map f ts)) \<and> set (concat (map f ts)) = (\<Union>c \<in> set cs. D c)"
    by (rule Cons.IH [OF dc]) (rule Cons.prems(2), simp_all)
  have "D c \<inter> D c' = {}" if "c' \<in> set cs" for c'
    using that cn Cons.prems(2) [of c c'] by auto
  then have "D c \<inter> (\<Union>c \<in> set cs. D c) = {}" by blast
  with ih Cons.hyps(1) show ?case by simp
qed

lemma comprehend_list_all2:
  "comprehend f xs = Inr ys \<Longrightarrow> list_all2 (\<lambda>x y. f x = Inr y) xs ys"
proof (induction xs arbitrary: ys)
  case Nil
  then show ?case by simp
next
  case (Cons x xs)
  then show ?case by (auto split: sum.splits)
qed

lemma comprehend_map: "comprehend f (map g xs) = comprehend (\<lambda>x. f (g x)) xs"
  by (induction xs) (auto split: sum.splits)

lemma create_tree_covers:
  assumes wf: "well_formed_sentence E all_tokens r"
  shows "i < length all_tokens \<Longrightarrow> length all_tokens < k + root_distance all_tokens r i \<Longrightarrow>
    \<exists>t. create_tree k E (int i) all_tokens = Inr t
       \<and> distinct (map index (walk t))
       \<and> set (map index (walk t)) = int ` descendants all_tokens r i"
proof (induction k arbitrary: i)
  case 0
  with root_distance_reach(2) [OF wf "0.prems"(1)] show ?case by simp
next
  case (Suc k)
  let ?cs = "filter (\<lambda>j. j \<noteq> r \<and> head_of all_tokens j = i) [0..<length all_tokens]"
  let ?D = "\<lambda>c. int ` descendants all_tokens r c"
  let ?ok = "\<lambda>c t. create_tree k E (int c) all_tokens = Inr t
       \<and> distinct (map index (walk t)) \<and> set (map index (walk t)) = ?D c"
  have child: "c < length all_tokens \<and> c \<noteq> r \<and> head_of all_tokens c = i" if "c \<in> set ?cs" for c
    using that by simp
  have each: "\<exists>t. ?ok c t" if c: "c \<in> set ?cs" for c
  proof -
    from child [OF c] have cl: "c < length all_tokens" and cr: "c \<noteq> r"
      and pc: "head_of all_tokens c = i" by simp_all
    from root_distance_step [OF wf cl cr] pc Suc.prems(2)
    have "length all_tokens < k + root_distance all_tokens r c" by simp
    from Suc.IH [OF cl this] show ?thesis .
  qed
  then have "\<exists>y. create_tree k E (int c) all_tokens = Inr y" if "c \<in> set ?cs" for c
    using that by blast
  then have "\<exists>ts. comprehend (\<lambda>c. create_tree k E (int c) all_tokens) ?cs = Inr ts"
    by (intro comprehend_all_Inr) 
  then obtain ts where ts: "comprehend (\<lambda>c. create_tree k E (int c) all_tokens) ?cs = Inr ts"
    by blast
  have cm: "comprehend (\<lambda>i. create_tree k E i all_tokens) (map int ?cs) = Inr ts"
    using ts by (simp only: comprehend_map)
  from comprehend_list_all2 [OF ts]
  have "list_all2 (\<lambda>c t. create_tree k E (int c) all_tokens = Inr t) ?cs ts" .
  then have all2: "list_all2 (\<lambda>c t. distinct (map index (walk t)) \<and> set (map index (walk t)) = ?D c)
      ?cs ts"
  proof (rule list.rel_mono_strong)
    fix c t assume "c \<in> set ?cs" and "t \<in> set ts" and ct: "create_tree k E (int c) all_tokens = Inr t"
    with each obtain t' where "?ok c t'" by blast
    with ct show "distinct (map index (walk t)) \<and> set (map index (walk t)) = ?D c" by simp
  qed
  have disj: "?D c1 \<inter> ?D c2 = {}" if "c1 \<in> set ?cs" "c2 \<in> set ?cs" "c1 \<noteq> c2" for c1 c2
  proof -
    from child [OF that(1)] child [OF that(2)] that(3)
    have "descendants all_tokens r c1 \<inter> descendants all_tokens r c2 = {}"
      using descendants_disjoint [OF wf, of c1 i c2] by blast
    then show ?thesis by (auto simp: image_iff)
  qed
  have dw: "distinct (concat (map (\<lambda>t. map index (walk t)) ts))
      \<and> set (concat (map (\<lambda>t. map index (walk t)) ts)) = (\<Union>c \<in> set ?cs. ?D c)"
    by (rule disjoint_walks [OF all2]) (simp, rule disj)
  let ?tok = "all_tokens ! i"
  let ?t = "Tree (int i) (dependency_edge_label ?tok) (text_content ?tok) (token_lemma ?tok)
             (part_of_speech_tag ?tok) ts None None"
  have ct: "create_tree (Suc k) E (int i) all_tokens = Inr ?t"
    using cm Suc.prems(1) by (simp add: py_getitem_nth child_indices_wf [OF wf Suc.prems(1)])
  have wk: "map index (walk ?t) = int i # concat (map (\<lambda>t. map index (walk t)) ts)"
    by (simp add: walk_children_concat map_concat comp_def)
  have un: "descendants all_tokens r i = insert i (\<Union>c \<in> set ?cs. descendants all_tokens r c)"
  proof (intro set_eqI iffI)
    fix j assume j: "j \<in> descendants all_tokens r i"
    show "j \<in> insert i (\<Union>c \<in> set ?cs. descendants all_tokens r c)"
    proof (cases "j = i")
      case True
      then show ?thesis by simp
    next
      case False
      from descendants_cases [OF wf j False] show ?thesis by auto
    qed
  next
    fix j assume "j \<in> insert i (\<Union>c \<in> set ?cs. descendants all_tokens r c)"
    then show "j \<in> descendants all_tokens r i"
      using descendants_self [OF Suc.prems(1)] descendants_child [OF wf] by auto
  qed
  have ni: "int i \<notin> (\<Union>c \<in> set ?cs. ?D c)"
    using descendants_not_parent [OF wf] by auto
  have "distinct (map index (walk ?t)) \<and> set (map index (walk ?t)) = ?D i"
    unfolding wk using dw ni by (subst un) auto
  with ct show ?case by blast
qed

text \<open>
  Claim C5. For a well-formed single-sentence token array of size \<open>N\<close> with root \<open>r\<close>
  (the only token labelled \<open>ROOT\<close>, every head reference leading to it), and a stack
  of more than \<open>N\<close> frames, \<open>_create_tree\<close> returns a tree whose walk has exactly \<open>N\<close>
  nodes, with the indices \<open>0, \<dots>, N - 1\<close> each once. The walk of any tree is the node
  itself, then the walk of each child in child order.
\<close>

theorem walk_covers_tokens:
  "well_formed_sentence E all_tokens r \<Longrightarrow> length all_tokens < frames \<Longrightarrow>
   (\<exists>t. create_tree frames E (int r) all_tokens = Inr t
       \<and> length (walk t) = length all_tokens
       \<and> mset (map index (walk t)) = mset (map int [0..<length all_tokens]))
   \<and> (\<forall>t. walk t = t # concat (map walk (children t)))"
proof -
  assume wf: "well_formed_sentence E all_tokens r" and fr: "length all_tokens < frames"
  from wf_root [OF wf] have r: "r < length all_tokens" by simp
  from fr have "length all_tokens < frames + root_distance all_tokens r r" by simp
  from create_tree_covers [OF wf r this] obtain t where
    t: "create_tree frames E (int r) all_tokens = Inr t"
    and d: "distinct (map index (walk t))"
    and s: "set (map index (walk t)) = int ` descendants all_tokens r r" by blast
  have d2: "distinct (map int [0..<length all_tokens])"
    by (simp add: distinct_map)
  from s have st: "set (map index (walk t)) = set (map int [0..<length all_tokens])"
    by (simp add: descendants_root [OF wf])
  have m: "mset (map index (walk t)) = mset (map int [0..<length all_tokens])"
    using set_eq_iff_mset_eq_distinct [OF d d2] st by blast
  then have "size (mset (map index (walk t))) = size (mset (map int [0..<length all_tokens]))"
    by simp
  then have "length (walk t) = length all_tokens" by simp
  with t m show ?thesis by (auto simp: walk_unfold [symmetric])
qed

theorem walk_covers_tokens_witness:
  "well_formed_sentence example_enums example_tokens 2
   \<and> create_tree 6 example_enums 2 example_tokens = Inr node_chased
   \<and> length (walk node_chased) = 5
   \<and> mset (map index (walk node_chased)) = mset [0, 1, 2, 3, 4]"
proof -
  have e: "well_formed_sentence example_enums example_tokens 2"
    "length example_tokens < 6"
    "create_tree 6 example_enums (int 2) example_tokens = Inr node_chased"
    "length example_tokens = 5"
    "map int [0..<5] = [0, 1, 2, 3, 4]"
    by code_simp+
  from walk_covers_tokens [OF e(1) e(2)] e(3,4,5) show ?thesis using e(1) by auto
qed

section \<open>Document assembly\<close>

lemma append_sentences_comprehend:
  "append_sentences frames E all_tokens ps doc =
     (case comprehend (\<lambda>(s, r). case create_tree frames E (int r) all_tokens of
                           Inl e \<Rightarrow> Inl e
                         | Inr t \<Rightarrow> Inr (Sentence (sentence_text_content s) t)) ps of
        Inl e \<Rightarrow> Inl e
      | Inr ss \<Rightarrow> Inr (doc\<lparr>sentences := sentences doc @ ss\<rparr>))"
proof (induction ps arbitrary: doc)
  case Nil
  show ?case by simp
next
  case (Cons p ps)
  obtain s r where p: "p = (s, r)" by (cases p)
  show ?case
    unfolding p by (simp add: Cons split: sum.splits)
qed


lemma comprehend_sentences:
  "comprehend (\<lambda>(s, r). case create_tree frames E (int r) all_tokens of
                           Inl e \<Rightarrow> Inl e
                         | Inr t \<Rightarrow> Inr (Sentence (sentence_text_content s) t)) ps = Inr ss \<Longrightarrow>
   map sentence_content ss = map (\<lambda>p. sentence_text_content (fst p)) ps
   \<and> map (\<lambda>s. Inr (root s)) ss = map (\<lambda>p. create_tree frames E (int (snd p)) all_tokens) ps"
proof (induction ps arbitrary: ss)
  case Nil
  then show ?case by simp
next
  case (Cons p ps)
  obtain s r where p: "p = (s, r)" by (cases p)
  from Cons.prems obtain t ss' where
    t: "create_tree frames E (int r) all_tokens = Inr t"
    and ss': "comprehend (\<lambda>(s, r). case create_tree frames E (int r) all_tokens of
                           Inl e \<Rightarrow> Inl e
                         | Inr t \<Rightarrow> Inr (Sentence (sentence_text_content s) t)) ps = Inr ss'"
    and ss: "ss = Sentence (sentence_text_content s) t # ss'"
    unfolding p by (auto split: sum.splits)
  from Cons.IH [OF ss'] t show ?case
    unfolding p ss by simp
qed

text \<open>
  Claim C7. The document built from a response has one sentence for each pair of a
  sentence text and a \<open>ROOT\<close> token index, in order, up to the length of the shorter of
  the two sequences: its number of sentences is the minimum of the two lengths, the
  contents are the first texts and the roots are the trees built from the first
  \<open>ROOT\<close> indices. The elements beyond the common length are dropped without an error:
  the assembly succeeds whenever the trees of the paired indices can be built.
\<close>

theorem document_assembly_truncates:
  "(create_nlst_document_from_response frames E resp = Inr doc \<longrightarrow>
      length (sentences doc) =
        min (length (response_sentences resp)) (length (sentence_root_indices E (tokens resp)))
      \<and> language doc = response_language resp
      \<and> map sentence_content (sentences doc) =
          map sentence_text_content
            (take (min (length (response_sentences resp))
                       (length (sentence_root_indices E (tokens resp))))
               (response_sentences resp))
      \<and> map (\<lambda>s. Inr (root s)) (sentences doc) =
          map (\<lambda>r. create_tree frames E (int r) (tokens resp))
            (take (min (length (response_sentences resp))
                       (length (sentence_root_indices E (tokens resp))))
               (sentence_root_indices E (tokens resp))))
   \<and> ((\<forall>r \<in> set (take (min (length (response_sentences resp))
                              (length (sentence_root_indices E (tokens resp))))
                    (sentence_root_indices E (tokens resp))).
          \<exists>t. create_tree frames E (int r) (tokens resp) = Inr t) \<longrightarrow>
        (\<exists>d. create_nlst_document_from_response frames E resp = Inr d))
   \<and> sentence_root_indices E (tokens resp) =
        filter (\<lambda>i. dependency_edge_label (tokens resp ! i) = Label_ROOT E)
          [0..<length (tokens resp)]"
proof -
  let ?roots = "sentence_root_indices E (tokens resp)"
  let ?ps = "zip (response_sentences resp) ?roots"
  let ?F = "\<lambda>(s, r). case create_tree frames E (int r) (tokens resp) of
                           Inl e \<Rightarrow> Inl e
                         | Inr t \<Rightarrow> Inr (Sentence (sentence_text_content s) t)"
  have eq: "create_nlst_document_from_response frames E resp =
      (case comprehend ?F ?ps of
         Inl e \<Rightarrow> Inl e
       | Inr ss \<Rightarrow> Inr \<lparr>language = response_language resp, sentences = ss\<rparr>)"
    by (simp add: create_nlst_document_from_response_def append_sentences_comprehend Let_def split: sum.splits)
  have a: "length (sentences doc) = min (length (response_sentences resp)) (length ?roots)
      \<and> language doc = response_language resp
      \<and> map sentence_content (sentences doc) =
          map sentence_text_content
            (take (min (length (response_sentences resp)) (length ?roots))
               (response_sentences resp))
      \<and> map (\<lambda>s. Inr (root s)) (sentences doc) =
          map (\<lambda>r. create_tree frames E (int r) (tokens resp))
            (take (min (length (response_sentences resp)) (length ?roots)) ?roots)"
    if r: "create_nlst_document_from_response frames E resp = Inr doc"
  proof -
    from r eq obtain ss where ss: "comprehend ?F ?ps = Inr ss"
      and doc: "doc = \<lparr>language = response_language resp, sentences = ss\<rparr>"
      by (auto split: sum.splits)
    from comprehend_sentences [OF ss]
    have m1: "map sentence_content ss = map (\<lambda>p. sentence_text_content (fst p)) ?ps"
      and m2: "map (\<lambda>s. Inr (root s)) ss =
               map (\<lambda>p. create_tree frames E (int (snd p)) (tokens resp)) ?ps"
      by simp_all
    have f: "map (\<lambda>p. sentence_text_content (fst p)) ?ps =
             map sentence_text_content (map fst ?ps)"
      and g: "map (\<lambda>p. create_tree frames E (int (snd p)) (tokens resp)) ?ps =
             map (\<lambda>r. create_tree frames E (int r) (tokens resp)) (map snd ?ps)"
      by simp_all
    from m1 have "length ss = length ?ps"
      by (metis length_map)
    with m1 m2 show ?thesis
      unfolding doc f g map_fst_zip_take map_snd_zip_take
      by simp
  qed
  have b: "\<exists>d. create_nlst_document_from_response frames E resp = Inr d"
    if ok: "\<forall>r \<in> set (take (min (length (response_sentences resp)) (length ?roots)) ?roots).
          \<exists>t. create_tree frames E (int r) (tokens resp) = Inr t"
  proof -
    have "\<exists>y. ?F p = Inr y" if p: "p \<in> set ?ps" for p
    proof -
      obtain s r where sr: "p = (s, r)" by (cases p)
      from p have "snd p \<in> set (map snd ?ps)" by (metis imageI set_map)
      then have "r \<in> set (take (min (length (response_sentences resp)) (length ?roots)) ?roots)"
        unfolding map_snd_zip_take sr by simp
      with ok obtain t where "create_tree frames E (int r) (tokens resp) = Inr t" by auto
      then show ?thesis unfolding sr by simp
    qed
    then obtain ss where "comprehend ?F ?ps = Inr ss"
      using comprehend_all_Inr [of ?ps ?F] by blast
    with eq show ?thesis by simp
  qed
  from a b show ?thesis
    by (simp add: sentence_root_indices_filter)
qed

text \<open>Two sentence texts and one \<open>ROOT\<close> token give a document of one sentence.\<close>

theorem document_assembly_truncates_witness:
  "length (response_sentences example_response) = 2
   \<and> sentence_root_indices example_enums (tokens example_response) = [2]
   \<and> create_nlst_document_from_response 6 example_enums example_response =
        Inr \<lparr>language = ''en'', sentences = [example_sentence]\<rparr>"
proof -
  have e: "create_tree 6 example_enums (int 2) (tokens example_response) = Inr node_chased"
    "sentence_root_indices example_enums (tokens example_response) = [2]"
    "length (response_sentences example_response) = 2"
    "create_nlst_document_from_response 6 example_enums example_response =
        Inr \<lparr>language = ''en'', sentences = [example_sentence]\<rparr>"
    by code_simp+
  from document_assembly_truncates [of 6 example_enums example_response
      "\<lparr>language = ''en'', sentences = [example_sentence]\<rparr>"] e
  show ?thesis by simp
qed

end
